theory Spec2Isabelle
  imports Complex_Main
begin

section \<open>The login script of examples\_postRequestPayload.js\<close>

text \<open>
  The script keeps one mutable object \<open>circuitState\<close>, reads the wall clock with
  \<open>Date.now()\<close>, sends requests with \<open>http.post\<close>, pauses with \<open>sleep\<close> and feeds
  a handful of metrics.  The model threads a record \<open>world\<close> through every function and
  takes what the outside world answers from a record \<open>env\<close>: the response to the n-th
  request and the value of the n-th clock reading.  Console output is not modelled.
\<close>

subsection \<open>JavaScript values as far as the script inspects them\<close>

datatype jsval =
    JUndefined
  | JNull
  | JBool bool
  | JNum real
  | JStr string
  | JArr "jsval list"
  | JObj "(string \<times> jsval) list"

text \<open>Truthiness, as \<open>&&\<close> and k6's \<open>check\<close> apply it (JSON has no NaN).\<close>

fun truthy :: "jsval \<Rightarrow> bool" where
  "truthy JUndefined = False"
| "truthy JNull = False"
| "truthy (JBool b) = b"
| "truthy (JNum n) = (n \<noteq> 0)"
| "truthy (JStr s) = (s \<noteq> [])"
| "truthy (JArr xs) = True"
| "truthy (JObj kvs) = True"

fun typeof :: "jsval \<Rightarrow> string" where
  "typeof JUndefined = ''undefined''"
| "typeof JNull = ''object''"
| "typeof (JBool b) = ''boolean''"
| "typeof (JNum n) = ''number''"
| "typeof (JStr s) = ''string''"
| "typeof (JArr xs) = ''object''"
| "typeof (JObj kvs) = ''object''"

datatype js_error = TypeError | SyntaxError

text \<open>
  Reading a property whose name is no built-in member (the script reads \<open>token\<close>):
  \<open>null\<close> and \<open>undefined\<close> throw, an object answers with the last entry of that
  name or \<open>undefined\<close>, every other value answers \<open>undefined\<close>.
\<close>

fun get_member :: "jsval \<Rightarrow> string \<Rightarrow> js_error + jsval" where
  "get_member JUndefined k = Inl TypeError"
| "get_member JNull k = Inl TypeError"
| "get_member (JObj kvs) k =
     (case map_of (rev kvs) k of None \<Rightarrow> Inr JUndefined | Some v \<Rightarrow> Inr v)"
| "get_member v k = Inr JUndefined"

text \<open>\<open>s.length\<close> of a string value; the script reads it only after \<open>typeof\<close> said string.\<close>

fun str_length :: "jsval \<Rightarrow> nat" where
  "str_length (JStr s) = length s"
| "str_length v = 0"

text \<open>\<open>String.prototype.includes\<close>: does \<open>t\<close> occur in \<open>s\<close> as a contiguous run.\<close>

fun starts_with :: "string \<Rightarrow> string \<Rightarrow> bool" where
  "starts_with s [] = True"
| "starts_with [] (c # t) = False"
| "starts_with (d # s) (c # t) = (d = c \<and> starts_with s t)"

fun str_includes :: "string \<Rightarrow> string \<Rightarrow> bool" where
  "str_includes [] t = starts_with [] t"
| "str_includes (d # s) t = (starts_with (d # s) t \<or> str_includes s t)"

subsection \<open>Circuit breaker state, configuration, world\<close>

definition CIRCUIT_MAX_FAILURES :: nat where
  "CIRCUIT_MAX_FAILURES = 5"

definition CIRCUIT_RESET_TIME :: real where
  "CIRCUIT_RESET_TIME = 30"

text \<open>
  \<open>failures\<close> is a JavaScript number that only ever holds 0 or the result of \<open>++\<close>;
  below $2^{53}$ that is a natural number.  \<open>openSince\<close> is \<open>null\<close> or a clock reading
  in milliseconds.
\<close>

record circuit =
  failures :: nat
  openSince :: "int option"

definition circuitState_initial :: circuit where
  "circuitState_initial = \<lparr>failures = 0, openSince = None\<rparr>"

text \<open>
  The two entries of \<open>CONFIG\<close> that steer control flow; \<open>parseInt\<close> yields integers.
  The URLs and the two timeouts only parametrise the request, whose response comes from
  the environment.
\<close>

record config =
  MAX_RETRIES :: int
  RETRY_INTERVAL :: int

definition CONFIG_default :: config where
  "CONFIG_default = \<lparr>MAX_RETRIES = 3, RETRY_INTERVAL = 2\<rparr>"

record response =
  status :: int
  json :: "js_error + jsval"
  timings_duration :: real
  headers :: "string \<Rightarrow> string option"

record credential =
  email :: string
  password :: string
  userId :: string

text \<open>
  What the outside answers: the response to the n-th \<open>http.post\<close> of the run, the value
  of the n-th \<open>Date.now()\<close>, and the text \<open>JSON.stringify\<close> builds for a user's login
  payload.  \<open>json\<close> of a response is what \<open>r.json()\<close> does: the parsed body, or the
  exception it throws; k6 parses the same body on every call, so it is a field.
\<close>

record env =
  http_post :: "nat \<Rightarrow> response"
  date_now :: "nat \<Rightarrow> int"
  payload_text :: "credential \<Rightarrow> string"

text \<open>
  The state the script changes: the gate; how many requests were sent and how often the
  clock was read (the indices of the next answers of the environment); the arguments of
  the \<open>sleep\<close> calls, in seconds and in call order; the metrics \<open>loginFailRate\<close>
  and \<open>successfulLogins\<close> as the number of their \<open>add(1)\<close> calls,
  \<open>requestDuration\<close> and \<open>dataProcessingTime\<close> as their samples, \<open>bytesSent\<close>
  as its sum.
\<close>

record world =
  circuitState :: circuit
  posts :: nat
  clockReads :: nat
  slept :: "int list"
  loginFailRate :: nat
  successfulLogins :: nat
  requestDuration :: "int list"
  dataProcessingTime :: "int list"
  bytesSent :: nat

definition world_initial :: world where
  "world_initial = \<lparr>circuitState = circuitState_initial, posts = 0, clockReads = 0,
     slept = [], loginFailRate = 0, successfulLogins = 0, requestDuration = [],
     dataProcessingTime = [], bytesSent = 0\<rparr>"

text \<open>\<open>Date.now()\<close>: the next reading of the clock.\<close>

definition Date_now :: "env \<Rightarrow> world \<Rightarrow> int \<times> world" where
  "Date_now e w = (date_now e (clockReads w), w\<lparr>clockReads := Suc (clockReads w)\<rparr>)"

subsection \<open>circuitBreaker and recordCircuitBreakerResult\<close>

definition circuitBreaker :: "env \<Rightarrow> world \<Rightarrow> bool \<times> world" where
  "circuitBreaker e w =
     (case openSince (circuitState w) of
        None \<Rightarrow> (True, w)
      | Some since \<Rightarrow>
          (let (now, w1) = Date_now e w;
               elapsedSeconds = real_of_int (now - since) / 1000
           in if elapsedSeconds < CIRCUIT_RESET_TIME then (False, w1)
              else (True, w1\<lparr>circuitState := \<lparr>failures = 0, openSince = None\<rparr>\<rparr>)))"

definition recordCircuitBreakerResult :: "env \<Rightarrow> bool \<Rightarrow> world \<Rightarrow> world" where
  "recordCircuitBreakerResult e success w =
     (if success then w\<lparr>circuitState := (circuitState w)\<lparr>failures := 0\<rparr>\<rparr>
      else
        (let w1 = w\<lparr>circuitState := (circuitState w)\<lparr>failures := Suc (failures (circuitState w))\<rparr>\<rparr>
         in if CIRCUIT_MAX_FAILURES \<le> failures (circuitState w1)
               \<and> openSince (circuitState w1) = None
            then (let (now, w2) = Date_now e w1
                  in w2\<lparr>circuitState := (circuitState w2)\<lparr>openSince := Some now\<rparr>\<rparr>)
            else w1))"

subsection \<open>The rubric of performLogin\<close>

text \<open>
  \<open>check(response, {...})\<close> of k6 runs every function of the set on the response and
  answers true when every result is truthy.  The four functions of the script, in its
  order, each with the JavaScript value it returns.
\<close>

definition check_status_is_200 :: "response \<Rightarrow> jsval" where
  "check_status_is_200 r = JBool (status r = 200)"

definition check_has_valid_token :: "response \<Rightarrow> jsval" where
  "check_has_valid_token r =
     (case json r of
        Inl err \<Rightarrow> JBool False
      | Inr body \<Rightarrow>
          (case get_member body ''token'' of
             Inl err \<Rightarrow> JBool False
           | Inr token \<Rightarrow>
               if \<not> truthy token then token
               else if typeof token \<noteq> ''string'' then JBool False
               else JBool (10 < str_length token)))"

definition check_response_time_acceptable :: "response \<Rightarrow> jsval" where
  "check_response_time_acceptable r = JBool (timings_duration r < 2000)"

definition check_content_type_is_JSON :: "response \<Rightarrow> jsval" where
  "check_content_type_is_JSON r =
     (case headers r ''Content-Type'' of
        None \<Rightarrow> JUndefined
      | Some ct \<Rightarrow>
          if \<not> truthy (JStr ct) then JStr ct
          else JBool (str_includes ct ''application/json''))"

definition k6_check :: "response \<Rightarrow> (response \<Rightarrow> jsval) list \<Rightarrow> bool" where
  "k6_check r sets = list_all (\<lambda>f. truthy (f r)) sets"

definition checkResult :: "response \<Rightarrow> bool" where
  "checkResult r =
     k6_check r [check_status_is_200, check_has_valid_token,
                 check_response_time_acceptable, check_content_type_is_JSON]"

subsection \<open>createLoginPayload and performLogin\<close>

definition createLoginPayload :: "env \<Rightarrow> credential \<Rightarrow> world \<Rightarrow> string \<times> world" where
  "createLoginPayload e user w =
     (let (processingStart, w1) = Date_now e w;
          payload = payload_text e user;
          (processingEnd, w2) = Date_now e w1;
          w3 = w2\<lparr>dataProcessingTime := dataProcessingTime w2 @ [processingEnd - processingStart]\<rparr>;
          w4 = w3\<lparr>bytesSent := bytesSent w3 + length payload\<rparr>
      in (payload, w4))"

text \<open>
  The \<open>while\<close> loop of performLogin, from the values of \<open>retries\<close> and the world at the
  loop head to \<open>result\<close>, \<open>retries\<close> and the world at the loop exit.  The branch
  where the rubric passes and \<open>response.json()\<close> throws goes round again with
  \<open>retries\<close> as it was; a response whose token check passed has a body that parsed,
  which is what the termination proof rests on.  \<open>backoffTime\<close> is an integer times
  a power of two, which JavaScript's numbers hold exactly up to $2^{1024}$; the model
  computes it in the integers.
\<close>

function performLogin_loop :: "config \<Rightarrow> env \<Rightarrow> nat \<Rightarrow> world \<Rightarrow> jsval \<times> nat \<times> world" where
  "performLogin_loop cfg e retries w =
     (if int retries \<le> MAX_RETRIES cfg then
        (let (startTime, w1) = Date_now e w;
             response = http_post e (posts w1);
             w2 = w1\<lparr>posts := Suc (posts w1)\<rparr>;
             (endTime, w3) = Date_now e w2;
             w4 = w3\<lparr>requestDuration := requestDuration w3 @ [endTime - startTime]\<rparr>
         in if checkResult response then
              (let w5 = w4\<lparr>successfulLogins := Suc (successfulLogins w4)\<rparr>;
                   w6 = recordCircuitBreakerResult e True w5
               in case json response of
                    Inr body \<Rightarrow> (body, retries, w6)
                  | Inl err \<Rightarrow> performLogin_loop cfg e retries w6)
            else
              (let backoffTime = RETRY_INTERVAL cfg * 2 ^ retries;
                   w5 = w4\<lparr>loginFailRate := Suc (loginFailRate w4)\<rparr>;
                   w6 = (if int retries < MAX_RETRIES cfg
                         then w5\<lparr>slept := slept w5 @ [backoffTime]\<rparr> else w5)
               in performLogin_loop cfg e (Suc retries) w6))
      else (JNull, retries, w))"
  by pat_completeness auto
termination
proof (relation "measure (\<lambda>(cfg, e, retries, w). nat (MAX_RETRIES cfg + 1 - int retries))")
  show "wf (measure (\<lambda>(cfg, e, retries, w). nat (MAX_RETRIES cfg + 1 - int retries)))"
    by simp
next
  fix cfg :: config and e :: env and retries :: nat and w :: world
  fix response :: response and err :: js_error and w6 :: world
  assume passed: "checkResult response" and thrown: "json response = Inl err"
  from passed have "truthy (check_has_valid_token response)"
    by (simp add: checkResult_def k6_check_def)
  with thrown have False
    by (simp add: check_has_valid_token_def)
  then show "((cfg, e, retries, w6), (cfg, e, retries, w))
      \<in> measure (\<lambda>(cfg, e, retries, w). nat (MAX_RETRIES cfg + 1 - int retries))"
    by (rule FalseE)
next
  fix cfg :: config and e :: env and retries :: nat and w :: world
  fix w6 :: world
  assume "int retries \<le> MAX_RETRIES cfg"
  then show "((cfg, e, Suc retries, w6), (cfg, e, retries, w))
      \<in> measure (\<lambda>(cfg, e, retries, w). nat (MAX_RETRIES cfg + 1 - int retries))"
    by simp
qed

definition performLogin :: "config \<Rightarrow> env \<Rightarrow> credential \<Rightarrow> world \<Rightarrow> jsval \<times> world" where
  "performLogin cfg e user w =
     (case circuitBreaker e w of
        (False, w1) \<Rightarrow> (JNull, w1)
      | (True, w1) \<Rightarrow>
          (let (payload, w2) = createLoginPayload e user w1;
               (result, retries, w3) = performLogin_loop cfg e 0 w2
           in if MAX_RETRIES cfg < int retries
              then (JNull, recordCircuitBreakerResult e False w3)
              else (result, w3)))"

declare performLogin_loop.simps [simp del]

subsection \<open>generateUserPool\<close>

text \<open>
  \<open>randomString\<close> and \<open>uuidv4\<close> of k6-utils draw from the random generator.  The
  environment gives the result of the n-th draw (for \<open>randomString\<close>, by the length
  asked for); the number of draws so far is threaded through.
\<close>

record rand_env =
  random_string :: "nat \<Rightarrow> nat \<Rightarrow> string"
  random_uuid :: "nat \<Rightarrow> string"

definition randomString :: "rand_env \<Rightarrow> nat \<Rightarrow> nat \<Rightarrow> string \<times> nat" where
  "randomString rnd len draws = (random_string rnd draws len, Suc draws)"

definition uuidv4 :: "rand_env \<Rightarrow> nat \<Rightarrow> string \<times> nat" where
  "uuidv4 rnd draws = (random_uuid rnd draws, Suc draws)"

text \<open>
  \<open>${i}\<close> in a template literal, for the loop counter: a non-negative integer in
  decimal (JavaScript switches to exponent notation only from $10^{21}$ on).
\<close>

definition digit_char :: "nat \<Rightarrow> char" where
  "digit_char k = char_of (48 + k)"

fun number_toString :: "nat \<Rightarrow> string" where
  "number_toString n =
     (if n < 10 then [digit_char n] else number_toString (n div 10) @ [digit_char (n mod 10)])"

function generateUserPool_loop ::
    "rand_env \<Rightarrow> int \<Rightarrow> nat \<Rightarrow> credential list \<Rightarrow> nat \<Rightarrow> credential list \<times> nat" where
  "generateUserPool_loop rnd poolSize i users draws =
     (if int i < poolSize then
        (let (r8, d1) = randomString rnd 8 draws;
             (r12, d2) = randomString rnd 12 d1;
             (uuid, d3) = uuidv4 rnd d2
         in generateUserPool_loop rnd poolSize (Suc i)
              (users @ [\<lparr>email = ''user'' @ number_toString i @ ''_'' @ r8 @ ''@example.com'',
                         password = ''Secure'' @ r12 @ ''!'' @ number_toString i,
                         userId = uuid\<rparr>])
              d3)
      else (users, draws))"
  by pat_completeness auto
termination
  by (relation "measure (\<lambda>(rnd, poolSize, i, users, draws). nat (poolSize - int i))") auto

definition generateUserPool :: "rand_env \<Rightarrow> int \<Rightarrow> nat \<Rightarrow> credential list \<times> nat" where
  "generateUserPool rnd poolSize draws = generateUserPool_loop rnd poolSize 0 [] draws"

declare number_toString.simps [simp del]

declare generateUserPool_loop.simps [simp del]

section \<open>Definitions for stating the properties\<close>

subsection \<open>The worlds of one loop iteration\<close>

text \<open>
  The world after the request of an iteration (two clock readings around \<open>http.post\<close>
  and the duration sample), after a passing iteration and after a failing one.
\<close>

definition request_world :: "env \<Rightarrow> world \<Rightarrow> world" where
  "request_world e w =
     w\<lparr>posts := Suc (posts w), clockReads := Suc (Suc (clockReads w)),
       requestDuration := requestDuration w @ [date_now e (Suc (clockReads w)) - date_now e (clockReads w)]\<rparr>"

definition pass_world :: "world \<Rightarrow> world" where
  "pass_world w = w\<lparr>successfulLogins := Suc (successfulLogins w),
      circuitState := (circuitState w)\<lparr>failures := 0\<rparr>\<rparr>"

definition fail_world :: "config \<Rightarrow> nat \<Rightarrow> world \<Rightarrow> world" where
  "fail_world cfg retries w =
     (if int retries < MAX_RETRIES cfg
      then w\<lparr>loginFailRate := Suc (loginFailRate w), slept := slept w @ [RETRY_INTERVAL cfg * 2 ^ retries]\<rparr>
      else w\<lparr>loginFailRate := Suc (loginFailRate w)\<rparr>)"

subsection \<open>Sequences of calls on the gate\<close>

text \<open>
  A sequence of calls on the gate: \<open>Allow\<close> is one call of circuitBreaker,
  \<open>RecordResult b\<close> one call of recordCircuitBreakerResult.  The readings of the clock
  come from the environment, so a run over every environment covers every timing.
\<close>

datatype gate_op = Allow | RecordResult bool

fun apply_gate_op :: "env \<Rightarrow> gate_op \<Rightarrow> world \<Rightarrow> world" where
  "apply_gate_op e Allow w = snd (circuitBreaker e w)"
| "apply_gate_op e (RecordResult b) w = recordCircuitBreakerResult e b w"

fun run_gate_ops :: "env \<Rightarrow> gate_op list \<Rightarrow> world \<Rightarrow> world" where
  "run_gate_ops e [] w = w"
| "run_gate_ops e (op # ops) w = run_gate_ops e ops (apply_gate_op e op w)"

text \<open>No success is recorded while the gate is open.\<close>

fun success_only_when_closed :: "env \<Rightarrow> gate_op list \<Rightarrow> world \<Rightarrow> bool" where
  "success_only_when_closed e [] w = True"
| "success_only_when_closed e (op # ops) w =
     ((if op = RecordResult True then openSince (circuitState w) = None else True)
      \<and> success_only_when_closed e ops (apply_gate_op e op w))"

definition record_failures :: "env \<Rightarrow> nat \<Rightarrow> world \<Rightarrow> world" where
  "record_failures e n w = ((recordCircuitBreakerResult e False) ^^ n) w"

text \<open>\<open>n\<close> calls of performLogin one after the other, each in the world the last one left.\<close>

definition login_calls :: "config \<Rightarrow> env \<Rightarrow> credential \<Rightarrow> nat \<Rightarrow> world \<Rightarrow> world" where
  "login_calls cfg e user n w = ((\<lambda>v. snd (performLogin cfg e user v)) ^^ n) w"

subsection \<open>The entries of the user pool\<close>

text \<open>The credential the loop appends for index \<open>i\<close> when \<open>draws\<close> draws were made before.\<close>

definition pool_entry :: "rand_env \<Rightarrow> nat \<Rightarrow> nat \<Rightarrow> credential" where
  "pool_entry rnd i draws =
     \<lparr>email = ''user'' @ number_toString i @ ''_'' @ random_string rnd draws 8 @ ''@example.com'',
      password = ''Secure'' @ random_string rnd (Suc draws) 12 @ ''!'' @ number_toString i,
      userId = random_uuid rnd (Suc (Suc draws))\<rparr>"

subsection \<open>Concrete inputs\<close>

text \<open>
  An endpoint that answers every request with status 500 and a body that is no JSON,
  under a clock that advances one second per reading.
\<close>

definition env_always_500 :: env where
  "env_always_500 =
     \<lparr>http_post = (\<lambda>n. \<lparr>status = 500, json = Inl SyntaxError, timings_duration = 35,
                          headers = Map.empty\<rparr>),
      date_now = (\<lambda>n. 1000 * int n),
      payload_text = (\<lambda>user. email user @ password user)\<rparr>"

text \<open>A response with status 200 and the token \<open>short\<close>.\<close>

definition response_short_token :: response where
  "response_short_token = \<lparr>status = 200, json = Inr (JObj [(''token'', JStr ''short'')]),
     timings_duration = 120, headers = [''Content-Type'' \<mapsto> ''application/json'']\<rparr>"

text \<open>A response that passes the rubric.\<close>

definition response_ok :: response where
  "response_ok = \<lparr>status = 200, json = Inr (JObj [(''token'', JStr ''abcdefghijk'')]),
     timings_duration = 120,
     headers = [''Content-Type'' \<mapsto> ''application/json; charset=utf-8'']\<rparr>"

text \<open>A user of the pool, for the examples.\<close>

definition user_example :: credential where
  "user_example = \<lparr>email = ''user0_abcdefgh@example.com'', password = ''Secureabcdefghijkl!0'',
     userId = ''00000000-0000-4000-8000-000000000000''\<rparr>"

text \<open>A random generator that always draws the same letters and the same uuid.\<close>

definition rand_constant :: rand_env where
  "rand_constant = \<lparr>random_string = (\<lambda>n len. replicate len CHR ''a''),
     random_uuid = (\<lambda>n. ''00000000-0000-4000-8000-000000000000'')\<rparr>"

section \<open>Properties\<close>

subsection \<open>What the rubric accepts\<close>

lemma has_valid_token_parsed:
  "truthy (check_has_valid_token r) \<Longrightarrow> \<exists>body. json r = Inr body"
  by (cases "json r") (simp_all add: check_has_valid_token_def)

lemma checkResult_parsed: "checkResult r \<Longrightarrow> \<exists>body. json r = Inr body"
  by (simp add: checkResult_def k6_check_def has_valid_token_parsed)

lemma starts_with_iff: "starts_with s t \<longleftrightarrow> (\<exists>q. s = t @ q)"
  by (induction s t rule: starts_with.induct) auto

lemma str_includes_iff: "str_includes s t \<longleftrightarrow> (\<exists>p q. s = p @ t @ q)"
proof (induction s)
  case Nil
  then show ?case by (simp add: starts_with_iff)
next
  case (Cons d s)
  show ?case
  proof
    assume "str_includes (d # s) t"
    then consider "starts_with (d # s) t" | "str_includes s t" by auto
    then show "\<exists>p q. d # s = p @ t @ q"
    proof cases
      case 1
      then obtain q where "d # s = t @ q" by (auto simp: starts_with_iff)
      then have "d # s = [] @ t @ q" by simp
      then show ?thesis by blast
    next
      case 2
      with Cons obtain p q where "s = p @ t @ q" by blast
      then have "d # s = (d # p) @ t @ q" by simp
      then show ?thesis by blast
    qed
  next
    assume "\<exists>p q. d # s = p @ t @ q"
    then obtain p q where pq: "d # s = p @ t @ q" by blast
    show "str_includes (d # s) t"
    proof (cases p)
      case Nil
      with pq have "starts_with (d # s) t" by (auto simp: starts_with_iff)
      then show ?thesis by simp
    next
      case (Cons c p')
      with pq have "s = p' @ t @ q" by simp
      with Cons.IH have "str_includes s t" by blast
      then show ?thesis by simp
    qed
  qed
qed

lemma has_valid_token_iff:
  "truthy (check_has_valid_token r) \<longleftrightarrow>
     (\<exists>kvs token. json r = Inr (JObj kvs) \<and> map_of (rev kvs) ''token'' = Some (JStr token)
        \<and> 10 < length token)"
proof (cases "json r")
  case (Inl err)
  then show ?thesis by (simp add: check_has_valid_token_def)
next
  case (Inr body)
  show ?thesis
  proof (cases body)
    case (JObj kvs)
    show ?thesis
    proof (cases "map_of (rev kvs) ''token''")
      case None
      with Inr JObj show ?thesis by (simp add: check_has_valid_token_def)
    next
      case (Some v)
      with Inr JObj show ?thesis
        by (cases v) (auto simp: check_has_valid_token_def)
    qed
  qed (simp_all add: Inr check_has_valid_token_def)
qed

lemma content_type_iff:
  "truthy (check_content_type_is_JSON r) \<longleftrightarrow>
     (\<exists>ct p q. headers r ''Content-Type'' = Some ct \<and> ct = p @ ''application/json'' @ q)"
proof (cases "headers r ''Content-Type''")
  case None
  then show ?thesis by (simp add: check_content_type_is_JSON_def)
next
  case (Some ct)
  have "[] \<noteq> p @ ''application/json'' @ q" for p q :: string by simp
  with Some show ?thesis
    by (auto simp add: check_content_type_is_JSON_def str_includes_iff simp del: append_assoc)
qed

lemma response_ok_passes: "checkResult response_ok"
  by (simp add: response_ok_def checkResult_def k6_check_def check_status_is_200_def
        check_has_valid_token_def check_response_time_acceptable_def
        check_content_type_is_JSON_def)

lemma status_500_fails: "status r = 500 \<Longrightarrow> \<not> checkResult r"
  by (simp add: checkResult_def k6_check_def check_status_is_200_def)

subsection \<open>The loop, one iteration at a time\<close>

lemma loop_exit:
  "\<not> int retries \<le> MAX_RETRIES cfg \<Longrightarrow> performLogin_loop cfg e retries w = (JNull, retries, w)"
  by (subst performLogin_loop.simps) simp

lemma loop_pass:
  assumes "int retries \<le> MAX_RETRIES cfg" and "checkResult (http_post e (posts w))"
  shows "performLogin_loop cfg e retries w =
           (projr (json (http_post e (posts w))), retries, pass_world (request_world e w))"
proof -
  from checkResult_parsed [OF assms(2)] obtain body where b: "json (http_post e (posts w)) = Inr body"
    by blast
  show ?thesis
    by (subst performLogin_loop.simps)
       (simp add: assms b Date_now_def recordCircuitBreakerResult_def pass_world_def request_world_def)
qed

lemma loop_fail:
  assumes "int retries \<le> MAX_RETRIES cfg" and "\<not> checkResult (http_post e (posts w))"
  shows "performLogin_loop cfg e retries w =
           performLogin_loop cfg e (Suc retries) (fail_world cfg retries (request_world e w))"
  by (subst performLogin_loop.simps)
     (simp add: assms Date_now_def fail_world_def request_world_def)

lemma loop_induct [case_names exit pass fail]:
  assumes "\<And>retries w. \<not> int retries \<le> MAX_RETRIES cfg \<Longrightarrow> P retries w"
    and "\<And>retries w. int retries \<le> MAX_RETRIES cfg \<Longrightarrow> checkResult (http_post e (posts w)) \<Longrightarrow> P retries w"
    and "\<And>retries w. int retries \<le> MAX_RETRIES cfg \<Longrightarrow> \<not> checkResult (http_post e (posts w)) \<Longrightarrow>
            P (Suc retries) (fail_world cfg retries (request_world e w)) \<Longrightarrow> P retries w"
  shows "P retries w"
proof -
  have "\<forall>retries w. nat (MAX_RETRIES cfg + 1 - int retries) = n \<longrightarrow> P retries w" for n
  proof (induct n)
    case 0
    then show ?case using assms(1) by simp
  next
    case (Suc n)
    show ?case
    proof (intro allI impI)
      fix retries w
      assume m: "nat (MAX_RETRIES cfg + 1 - int retries) = Suc n"
      then have le: "int retries \<le> MAX_RETRIES cfg" by linarith
      show "P retries w"
      proof (cases "checkResult (http_post e (posts w))")
        case True
        with le show ?thesis by (rule assms(2))
      next
        case False
        from m have "nat (MAX_RETRIES cfg + 1 - int (Suc retries)) = n" by linarith
        with Suc have "P (Suc retries) (fail_world cfg retries (request_world e w))" by blast
        with le False show ?thesis by (rule assms(3))
      qed
    qed
  qed
  then show ?thesis by blast
qed

lemma request_world_simps [simp]:
  "posts (request_world e w) = Suc (posts w)"
  "slept (request_world e w) = slept w"
  "circuitState (request_world e w) = circuitState w"
  "loginFailRate (request_world e w) = loginFailRate w"
  by (simp_all add: request_world_def)

lemma fail_world_simps [simp]:
  "posts (fail_world cfg retries w) = posts w"
  "circuitState (fail_world cfg retries w) = circuitState w"
  "loginFailRate (fail_world cfg retries w) = Suc (loginFailRate w)"
  "slept (fail_world cfg retries w) =
     (if int retries < MAX_RETRIES cfg then slept w @ [RETRY_INTERVAL cfg * 2 ^ retries] else slept w)"
  by (simp_all add: fail_world_def)

lemma pass_world_simps [simp]:
  "posts (pass_world w) = posts w"
  "slept (pass_world w) = slept w"
  "loginFailRate (pass_world w) = loginFailRate w"
  "failures (circuitState (pass_world w)) = 0"
  "openSince (circuitState (pass_world w)) = openSince (circuitState w)"
  by (simp_all add: pass_world_def)

lemma loop_posts_upper:
  "posts (snd (snd (performLogin_loop cfg e retries w)))
     \<le> posts w + nat (MAX_RETRIES cfg + 1 - int retries)"
proof (induct retries w rule: loop_induct [of cfg _ e])
  case (exit retries w)
  then show ?case by (simp add: loop_exit)
next
  case (pass retries w)
  then show ?case by (simp add: loop_pass)
next
  case (fail retries w)
  then show ?case by (simp add: loop_fail)
qed

lemma loop_posts_lower:
  "posts w + (if int retries \<le> MAX_RETRIES cfg then 1 else 0)
     \<le> posts (snd (snd (performLogin_loop cfg e retries w)))"
proof (induct retries w rule: loop_induct [of cfg _ e])
  case (exit retries w)
  then show ?case by (simp add: loop_exit)
next
  case (pass retries w)
  then show ?case by (simp add: loop_pass)
next
  case (fail retries w)
  have "Suc (posts w) \<le> posts (snd (snd (performLogin_loop cfg e (Suc retries)
          (fail_world cfg retries (request_world e w)))))"
    using fail(3) by (simp split: if_splits)
  with fail(1,2) show ?case by (simp add: loop_fail)
qed

lemma loop_slept:
  "slept (snd (snd (performLogin_loop cfg e retries w))) =
     slept w @ map (\<lambda>k. RETRY_INTERVAL cfg * 2 ^ k)
       [retries ..< retries + (posts (snd (snd (performLogin_loop cfg e retries w))) - posts w - 1)]"
proof (induct retries w rule: loop_induct [of cfg _ e])
  case (exit retries w)
  then show ?case by (simp add: loop_exit)
next
  case (pass retries w)
  then show ?case by (simp add: loop_pass)
next
  case (fail retries w)
  let ?fw = "fail_world cfg retries (request_world e w)"
  let ?w' = "snd (snd (performLogin_loop cfg e (Suc retries) ?fw))"
  have eq: "performLogin_loop cfg e retries w = performLogin_loop cfg e (Suc retries) ?fw"
    using fail(1,2) by (rule loop_fail)
  show ?case
  proof (cases "int retries < MAX_RETRIES cfg")
    case True
    then have "int (Suc retries) \<le> MAX_RETRIES cfg" by simp
    with loop_posts_lower [of ?fw "Suc retries" cfg e]
    have ge: "Suc (Suc (posts w)) \<le> posts ?w'" by simp
    then obtain m where m: "posts ?w' = Suc (Suc (posts w)) + m"
      using le_Suc_ex by blast
    have "[retries ..< retries + Suc m] = retries # [Suc retries ..< Suc retries + m]"
      by (simp add: upt_rec)
    with fail(3) True m show ?thesis by (simp add: eq)
  next
    case False
    then have "\<not> int (Suc retries) \<le> MAX_RETRIES cfg" by simp
    then have "performLogin_loop cfg e (Suc retries) ?fw = (JNull, Suc retries, ?fw)"
      by (rule loop_exit)
    with False show ?thesis by (simp add: eq)
  qed
qed

lemma loop_all_fail:
  "(\<forall>i. posts w \<le> i \<and> i < posts w + nat (MAX_RETRIES cfg + 1 - int retries)
        \<longrightarrow> \<not> checkResult (http_post e i)) \<Longrightarrow>
   fst (performLogin_loop cfg e retries w) = JNull \<and>
   MAX_RETRIES cfg < int (fst (snd (performLogin_loop cfg e retries w))) \<and>
   posts (snd (snd (performLogin_loop cfg e retries w)))
     = posts w + nat (MAX_RETRIES cfg + 1 - int retries) \<and>
   loginFailRate (snd (snd (performLogin_loop cfg e retries w)))
     = loginFailRate w + nat (MAX_RETRIES cfg + 1 - int retries) \<and>
   circuitState (snd (snd (performLogin_loop cfg e retries w))) = circuitState w"
proof (induct retries w rule: loop_induct [of cfg _ e])
  case (exit retries w)
  then show ?case by (simp add: loop_exit)
next
  case (pass retries w)
  then have "posts w < posts w + nat (MAX_RETRIES cfg + 1 - int retries)" by simp
  with pass show ?case by blast
next
  case (fail retries w)
  let ?fw = "fail_world cfg retries (request_world e w)"
  have eq: "performLogin_loop cfg e retries w = performLogin_loop cfg e (Suc retries) ?fw"
    using fail(1,2) by (rule loop_fail)
  have n: "nat (MAX_RETRIES cfg + 1 - int retries) = Suc (nat (MAX_RETRIES cfg + 1 - int (Suc retries)))"
    using fail(1) by linarith
  have "\<forall>i. posts ?fw \<le> i \<and> i < posts ?fw + nat (MAX_RETRIES cfg + 1 - int (Suc retries))
        \<longrightarrow> \<not> checkResult (http_post e i)"
    using fail(4) unfolding n by simp
  from fail(3) [OF this] show ?case
    unfolding n by (simp add: eq)
qed

lemma loop_clockReads:
  "clockReads (snd (snd (performLogin_loop cfg e retries w)))
     = clockReads w + 2 * (posts (snd (snd (performLogin_loop cfg e retries w))) - posts w)"
proof (induct retries w rule: loop_induct [of cfg _ e])
  case (exit retries w)
  then show ?case by (simp add: loop_exit)
next
  case (pass retries w)
  then show ?case by (simp add: loop_pass pass_world_def request_world_def)
next
  case (fail retries w)
  let ?fw = "fail_world cfg retries (request_world e w)"
  have reads: "clockReads ?fw = clockReads w + 2"
    by (simp add: fail_world_def request_world_def)
  have "posts ?fw \<le> posts (snd (snd (performLogin_loop cfg e (Suc retries) ?fw)))"
    using loop_posts_lower [of ?fw "Suc retries" cfg e] by (simp split: if_splits)
  then have "Suc (posts w) \<le> posts (snd (snd (performLogin_loop cfg e (Suc retries) ?fw)))"
    by simp
  with fail(3) reads show ?case
    unfolding loop_fail [OF fail(1,2)] by simp
qed

text \<open>
  Claim C8.  The rubric passes exactly when the status is 200, the body parsed to an
  object whose \<open>token\<close> is a string of more than 10 characters, the duration is
  below 2000 ms (the ceiling the script writes as a literal) and the Content-Type header
  is present and contains \<open>application/json\<close>.  A response with status 200 and a
  token of at most 10 characters fails the token check, fails the rubric, and the loop
  treats it as a failed attempt: it goes on with \<open>retries + 1\<close> in the world of a
  failed iteration.
\<close>

theorem checkResult_iff_rubric:
  "(checkResult r \<longleftrightarrow>
      status r = 200
      \<and> (\<exists>kvs token. json r = Inr (JObj kvs) \<and> map_of (rev kvs) ''token'' = Some (JStr token)
            \<and> 10 < length token)
      \<and> timings_duration r < 2000
      \<and> (\<exists>ct p q. headers r ''Content-Type'' = Some ct \<and> ct = p @ ''application/json'' @ q))
   \<and> (status r = 200 \<and> json r = Inr (JObj kvs) \<and> map_of (rev kvs) ''token'' = Some (JStr token)
        \<and> length token \<le> 10
      \<longrightarrow> \<not> truthy (check_has_valid_token r) \<and> \<not> checkResult r
          \<and> (\<forall>cfg e retries w. int retries \<le> MAX_RETRIES cfg \<and> http_post e (posts w) = r
                \<longrightarrow> performLogin_loop cfg e retries w
                      = performLogin_loop cfg e (Suc retries)
                          (fail_world cfg retries (request_world e w))))"
proof (intro conjI impI)
  show "checkResult r \<longleftrightarrow>
      status r = 200
      \<and> (\<exists>kvs token. json r = Inr (JObj kvs) \<and> map_of (rev kvs) ''token'' = Some (JStr token)
            \<and> 10 < length token)
      \<and> timings_duration r < 2000
      \<and> (\<exists>ct p q. headers r ''Content-Type'' = Some ct \<and> ct = p @ ''application/json'' @ q)"
    unfolding checkResult_def k6_check_def
    by (simp add: has_valid_token_iff content_type_iff check_status_is_200_def
          check_response_time_acceptable_def)
next
  assume a: "status r = 200 \<and> json r = Inr (JObj kvs)
      \<and> map_of (rev kvs) ''token'' = Some (JStr token) \<and> length token \<le> 10"
  then show nt: "\<not> truthy (check_has_valid_token r)"
    by (simp add: has_valid_token_iff)
  then show nc: "\<not> checkResult r"
    by (simp add: checkResult_def k6_check_def)
  show "\<forall>cfg e retries w. int retries \<le> MAX_RETRIES cfg \<and> http_post e (posts w) = r
          \<longrightarrow> performLogin_loop cfg e retries w
                = performLogin_loop cfg e (Suc retries)
                    (fail_world cfg retries (request_world e w))"
    using nc loop_fail by blast
qed

theorem checkResult_iff_rubric_witness:
  "\<not> truthy (check_has_valid_token response_short_token) \<and> \<not> checkResult response_short_token"
  using checkResult_iff_rubric [of response_short_token "[(''token'', JStr ''short'')]" "''short''"]
  by (simp add: response_short_token_def)

subsection \<open>The gate on its own\<close>

lemma apply_gate_op_threshold:
  assumes "CIRCUIT_MAX_FAILURES \<le> failures (circuitState w) \<longrightarrow> openSince (circuitState w) \<noteq> None"
  shows "CIRCUIT_MAX_FAILURES \<le> failures (circuitState (apply_gate_op e op w))
           \<longrightarrow> openSince (circuitState (apply_gate_op e op w)) \<noteq> None"
proof (cases op)
  case Allow
  with assms show ?thesis
    by (auto simp add: circuitBreaker_def Date_now_def Let_def CIRCUIT_MAX_FAILURES_def split: option.splits)
next
  case (RecordResult b)
  with assms show ?thesis
    by (cases b) (simp_all add: recordCircuitBreakerResult_def Date_now_def Let_def CIRCUIT_MAX_FAILURES_def)
qed

lemma run_gate_ops_threshold:
  "CIRCUIT_MAX_FAILURES \<le> failures (circuitState w) \<longrightarrow> openSince (circuitState w) \<noteq> None \<Longrightarrow>
   CIRCUIT_MAX_FAILURES \<le> failures (circuitState (run_gate_ops e ops w))
     \<longrightarrow> openSince (circuitState (run_gate_ops e ops w)) \<noteq> None"
proof (induction ops arbitrary: w)
  case Nil
  then show ?case by simp
next
  case (Cons op ops)
  from Cons.prems have "CIRCUIT_MAX_FAILURES \<le> failures (circuitState (apply_gate_op e op w))
           \<longrightarrow> openSince (circuitState (apply_gate_op e op w)) \<noteq> None"
    by (rule apply_gate_op_threshold)
  then show ?case using Cons.IH by simp
qed

lemma apply_gate_op_iff:
  assumes "openSince (circuitState w) \<noteq> None \<longleftrightarrow> CIRCUIT_MAX_FAILURES \<le> failures (circuitState w)"
    and "op = RecordResult True \<Longrightarrow> openSince (circuitState w) = None"
  shows "openSince (circuitState (apply_gate_op e op w)) \<noteq> None
           \<longleftrightarrow> CIRCUIT_MAX_FAILURES \<le> failures (circuitState (apply_gate_op e op w))"
proof (cases op)
  case Allow
  with assms(1) show ?thesis
    by (auto simp add: circuitBreaker_def Date_now_def Let_def CIRCUIT_MAX_FAILURES_def split: option.splits)
next
  case (RecordResult b)
  show ?thesis
  proof (cases b)
    case True
    with RecordResult assms(2) show ?thesis
      by (simp add: recordCircuitBreakerResult_def CIRCUIT_MAX_FAILURES_def)
  next
    case False
    with RecordResult assms(1) show ?thesis
      by (auto simp add: recordCircuitBreakerResult_def Date_now_def Let_def CIRCUIT_MAX_FAILURES_def)
  qed
qed

lemma run_gate_ops_iff:
  "openSince (circuitState w) \<noteq> None \<longleftrightarrow> CIRCUIT_MAX_FAILURES \<le> failures (circuitState w) \<Longrightarrow>
   success_only_when_closed e ops w \<Longrightarrow>
   openSince (circuitState (run_gate_ops e ops w)) \<noteq> None
     \<longleftrightarrow> CIRCUIT_MAX_FAILURES \<le> failures (circuitState (run_gate_ops e ops w))"
proof (induction ops arbitrary: w)
  case Nil
  then show ?case by simp
next
  case (Cons op ops)
  from Cons.prems(2) have guard: "op = RecordResult True \<Longrightarrow> openSince (circuitState w) = None"
    and rest: "success_only_when_closed e ops (apply_gate_op e op w)"
    by (simp_all split: if_splits)
  from Cons.prems(1) guard
  have "openSince (circuitState (apply_gate_op e op w)) \<noteq> None
           \<longleftrightarrow> CIRCUIT_MAX_FAILURES \<le> failures (circuitState (apply_gate_op e op w))"
    by (rule apply_gate_op_iff)
  from Cons.IH [OF this rest] show ?case by simp
qed

lemma world_initial_simps [simp]:
  "failures (circuitState world_initial) = 0"
  "openSince (circuitState world_initial) = None"
  "posts world_initial = 0"
  "clockReads world_initial = 0"
  "loginFailRate world_initial = 0"
  "slept world_initial = []"
  by (simp_all add: world_initial_def circuitState_initial_def)

lemma env_always_500_simps [simp]:
  "date_now env_always_500 n = 1000 * int n"
  "status (http_post env_always_500 n) = 500"
  by (simp_all add: env_always_500_def)

text \<open>
  Claim C3, as amended.  In every state reached from the initial one, a counter at or
  above the threshold comes with \<open>openSince\<close> set; and when no success was recorded
  while the gate was open, \<open>openSince\<close> is set exactly when the counter is at or above
  the threshold.
\<close>

theorem openSince_vs_threshold:
  "(CIRCUIT_MAX_FAILURES \<le> failures (circuitState (run_gate_ops e ops world_initial))
      \<longrightarrow> openSince (circuitState (run_gate_ops e ops world_initial)) \<noteq> None)
   \<and> (success_only_when_closed e ops world_initial
      \<longrightarrow> (openSince (circuitState (run_gate_ops e ops world_initial)) \<noteq> None
            \<longleftrightarrow> CIRCUIT_MAX_FAILURES \<le> failures (circuitState (run_gate_ops e ops world_initial))))"
proof -
  have init: "openSince (circuitState world_initial) \<noteq> None
                \<longleftrightarrow> CIRCUIT_MAX_FAILURES \<le> failures (circuitState world_initial)"
    by (simp add: CIRCUIT_MAX_FAILURES_def)
  then have "CIRCUIT_MAX_FAILURES \<le> failures (circuitState world_initial)
                \<longrightarrow> openSince (circuitState world_initial) \<noteq> None"
    by simp
  then have one: "CIRCUIT_MAX_FAILURES \<le> failures (circuitState (run_gate_ops e ops world_initial))
      \<longrightarrow> openSince (circuitState (run_gate_ops e ops world_initial)) \<noteq> None"
    by (rule run_gate_ops_threshold)
  from init run_gate_ops_iff show ?thesis using one by blast
qed

lemma five_failures:
  "run_gate_ops env_always_500
     [RecordResult False, RecordResult False, RecordResult False, RecordResult False,
      RecordResult False] world_initial
   = world_initial\<lparr>circuitState := \<lparr>failures = 5, openSince = Some 0\<rparr>, clockReads := 1\<rparr>"
  by (simp add: recordCircuitBreakerResult_def Date_now_def Let_def CIRCUIT_MAX_FAILURES_def
        world_initial_def circuitState_initial_def env_always_500_def)

theorem openSince_vs_threshold_witness:
  "success_only_when_closed env_always_500
     [RecordResult False, RecordResult False, RecordResult False, RecordResult False,
      RecordResult False] world_initial
   \<and> CIRCUIT_MAX_FAILURES \<le> failures (circuitState (run_gate_ops env_always_500
     [RecordResult False, RecordResult False, RecordResult False, RecordResult False,
      RecordResult False] world_initial))
   \<and> openSince (circuitState (run_gate_ops env_always_500
     [RecordResult False, RecordResult False, RecordResult False, RecordResult False,
      RecordResult False] world_initial)) \<noteq> None"
proof -
  let ?ops = "[RecordResult False, RecordResult False, RecordResult False, RecordResult False,
      RecordResult False]"
  have closed: "success_only_when_closed env_always_500 ?ops world_initial"
    by simp
  have reached: "CIRCUIT_MAX_FAILURES \<le> failures (circuitState (run_gate_ops env_always_500 ?ops world_initial))"
    unfolding five_failures by (simp add: CIRCUIT_MAX_FAILURES_def)
  from openSince_vs_threshold [of env_always_500 ?ops] closed reached show ?thesis
    by blast
qed

text \<open>
  Claim C3 as stated fails: five failures open the gate, the success that follows
  resets the counter and leaves \<open>openSince\<close> set.
\<close>

theorem openSince_iff_threshold_counterexample:
  "\<not> (openSince (circuitState (run_gate_ops env_always_500
          [RecordResult False, RecordResult False, RecordResult False, RecordResult False,
           RecordResult False, RecordResult True] world_initial)) \<noteq> None
        \<longleftrightarrow> CIRCUIT_MAX_FAILURES \<le> failures (circuitState (run_gate_ops env_always_500
          [RecordResult False, RecordResult False, RecordResult False, RecordResult False,
           RecordResult False, RecordResult True] world_initial)))"
  by (simp add: recordCircuitBreakerResult_def Date_now_def Let_def CIRCUIT_MAX_FAILURES_def
        world_initial_def circuitState_initial_def env_always_500_def)

text \<open>
  Claim C2, as amended.  Recording a success sets the counter to 0 and leaves
  \<open>openSince\<close> as it was, so the gate it found open stays open: the next call of
  circuitBreaker answers true when \<open>openSince\<close> was \<open>null\<close> and otherwise only when
  the reset time has passed since \<open>openSince\<close>.
\<close>

theorem record_success_resets_counter_only:
  "failures (circuitState (recordCircuitBreakerResult e True w)) = 0
   \<and> openSince (circuitState (recordCircuitBreakerResult e True w)) = openSince (circuitState w)
   \<and> fst (circuitBreaker e (recordCircuitBreakerResult e True w))
       = (case openSince (circuitState w) of
            None \<Rightarrow> True
          | Some since \<Rightarrow>
              \<not> real_of_int (date_now e (clockReads w) - since) / 1000 < CIRCUIT_RESET_TIME)"
proof (intro conjI)
  show "failures (circuitState (recordCircuitBreakerResult e True w)) = 0"
    by (simp add: recordCircuitBreakerResult_def)
  show same: "openSince (circuitState (recordCircuitBreakerResult e True w)) = openSince (circuitState w)"
    by (simp add: recordCircuitBreakerResult_def)
  have reads: "clockReads (recordCircuitBreakerResult e True w) = clockReads w"
    by (simp add: recordCircuitBreakerResult_def)
  show "fst (circuitBreaker e (recordCircuitBreakerResult e True w))
       = (case openSince (circuitState w) of
            None \<Rightarrow> True
          | Some since \<Rightarrow>
              \<not> real_of_int (date_now e (clockReads w) - since) / 1000 < CIRCUIT_RESET_TIME)"
    unfolding circuitBreaker_def same
    by (cases "openSince (circuitState w)") (simp_all add: Date_now_def reads)
qed

text \<open>
  Claim C2 as stated fails: after five failures the gate is open; a success is recorded;
  one second after the opening circuitBreaker still answers false.
\<close>

theorem record_success_closes_gate_counterexample:
  "\<not> fst (circuitBreaker env_always_500
          (recordCircuitBreakerResult env_always_500 True
             (run_gate_ops env_always_500
                [RecordResult False, RecordResult False, RecordResult False, RecordResult False,
                 RecordResult False] world_initial)))"
  unfolding five_failures
  by (simp add: circuitBreaker_def recordCircuitBreakerResult_def Date_now_def
        CIRCUIT_RESET_TIME_def)

lemma record_failure_closed:
  assumes "openSince (circuitState w) = None"
  shows "recordCircuitBreakerResult e False w =
           (if CIRCUIT_MAX_FAILURES \<le> Suc (failures (circuitState w))
            then w\<lparr>circuitState := \<lparr>failures = Suc (failures (circuitState w)),
                                    openSince = Some (date_now e (clockReads w))\<rparr>,
                   clockReads := Suc (clockReads w)\<rparr>
            else w\<lparr>circuitState := \<lparr>failures = Suc (failures (circuitState w)), openSince = None\<rparr>\<rparr>)"
  using assms by (simp add: recordCircuitBreakerResult_def Date_now_def Let_def)

lemma record_failure_open:
  assumes "openSince (circuitState w) = Some since"
  shows "recordCircuitBreakerResult e False w =
           w\<lparr>circuitState := \<lparr>failures = Suc (failures (circuitState w)), openSince = Some since\<rparr>\<rparr>"
  using assms by (simp add: recordCircuitBreakerResult_def Let_def)

lemma record_failures_Suc:
  "record_failures e (Suc n) w = recordCircuitBreakerResult e False (record_failures e n w)"
  by (simp add: record_failures_def)

lemma record_failures_closed:
  assumes "openSince (circuitState w) = None"
  shows "failures (circuitState (record_failures e n w)) = failures (circuitState w) + n
    \<and> openSince (circuitState (record_failures e n w))
        = (if n = 0 \<or> failures (circuitState w) + n < CIRCUIT_MAX_FAILURES then None
           else Some (date_now e (clockReads w)))
    \<and> clockReads (record_failures e n w)
        = (if n = 0 \<or> failures (circuitState w) + n < CIRCUIT_MAX_FAILURES then clockReads w
           else Suc (clockReads w))"
proof (induction n)
  case 0
  with assms show ?case by (simp add: record_failures_def)
next
  case (Suc n)
  let ?v = "record_failures e n w"
  show ?case
  proof (cases "openSince (circuitState ?v)")
    case None
    with Suc have small: "n = 0 \<or> failures (circuitState w) + n < CIRCUIT_MAX_FAILURES"
      by (simp split: if_splits)
    from Suc small show ?thesis
      unfolding record_failures_Suc record_failure_closed [OF None]
      by (auto simp: CIRCUIT_MAX_FAILURES_def)
  next
    case (Some since)
    with Suc have big: "\<not> (n = 0 \<or> failures (circuitState w) + n < CIRCUIT_MAX_FAILURES)"
      by (simp split: if_splits)
    from Suc big Some show ?thesis
      unfolding record_failures_Suc record_failure_open [OF Some]
      by (auto simp: CIRCUIT_MAX_FAILURES_def)
  qed
qed

text \<open>
  Claim C4.  From a closed gate, N failures in a row with N at least the threshold: the
  gate is open afterwards, the clock was read once and that reading is \<open>openSince\<close>;
  among the N steps exactly one goes from closed to open (the step that brings the
  counter to the threshold, or the first step when the counter was there already);
  and in any world with that gate, circuitBreaker answers false as long as fewer than
  \<open>CIRCUIT_RESET_TIME\<close> seconds lie between \<open>openSince\<close> and its reading of the clock,
  leaving the gate as it is.
\<close>

theorem failures_open_gate_once:
  assumes "openSince (circuitState w) = None" and "CIRCUIT_MAX_FAILURES \<le> N"
  shows "openSince (circuitState (record_failures e N w)) = Some (date_now e (clockReads w))
    \<and> clockReads (record_failures e N w) = Suc (clockReads w)
    \<and> (\<forall>k<N. (openSince (circuitState (record_failures e k w)) = None
               \<and> openSince (circuitState (record_failures e (Suc k) w)) \<noteq> None)
              \<longleftrightarrow> k = CIRCUIT_MAX_FAILURES - 1 - failures (circuitState w))
    \<and> CIRCUIT_MAX_FAILURES - 1 - failures (circuitState w) < N
    \<and> (\<forall>w'. circuitState w' = circuitState (record_failures e N w)
            \<and> real_of_int (date_now e (clockReads w') - date_now e (clockReads w)) / 1000
                 < CIRCUIT_RESET_TIME
          \<longrightarrow> circuitBreaker e w' = (False, w'\<lparr>clockReads := Suc (clockReads w')\<rparr>))"
proof (intro conjI allI impI)
  note run = record_failures_closed [OF assms(1), of e]
  from assms(2) have N: "\<not> (N = 0 \<or> failures (circuitState w) + N < CIRCUIT_MAX_FAILURES)"
    by (simp add: CIRCUIT_MAX_FAILURES_def)
  with run [of N] show opened: "openSince (circuitState (record_failures e N w))
      = Some (date_now e (clockReads w))"
    by simp
  from N run [of N] show "clockReads (record_failures e N w) = Suc (clockReads w)"
    by simp
  from assms(2) show "CIRCUIT_MAX_FAILURES - 1 - failures (circuitState w) < N"
    by (simp add: CIRCUIT_MAX_FAILURES_def)
  {
    fix k
    assume "k < N"
    have "openSince (circuitState (record_failures e k w)) = None
            \<longleftrightarrow> k = 0 \<or> failures (circuitState w) + k < CIRCUIT_MAX_FAILURES"
      using run [of k] by simp
    moreover have "openSince (circuitState (record_failures e (Suc k) w)) \<noteq> None
            \<longleftrightarrow> \<not> failures (circuitState w) + Suc k < CIRCUIT_MAX_FAILURES"
      using run [of "Suc k"] by simp
    ultimately show "(openSince (circuitState (record_failures e k w)) = None
               \<and> openSince (circuitState (record_failures e (Suc k) w)) \<noteq> None)
              \<longleftrightarrow> k = CIRCUIT_MAX_FAILURES - 1 - failures (circuitState w)"
      unfolding CIRCUIT_MAX_FAILURES_def by arith
  }
  {
    fix w' :: world
    assume a: "circuitState w' = circuitState (record_failures e N w)
            \<and> real_of_int (date_now e (clockReads w') - date_now e (clockReads w)) / 1000
                 < CIRCUIT_RESET_TIME"
    with opened have "openSince (circuitState w') = Some (date_now e (clockReads w))"
      by simp
    with a show "circuitBreaker e w' = (False, w'\<lparr>clockReads := Suc (clockReads w')\<rparr>)"
      by (simp add: circuitBreaker_def Date_now_def)
  }
qed

theorem failures_open_gate_once_witness:
  "openSince (circuitState (record_failures env_always_500 7 world_initial)) = Some 0
   \<and> clockReads (record_failures env_always_500 7 world_initial) = 1
   \<and> circuitBreaker env_always_500 (record_failures env_always_500 7 world_initial)
       = (False, (record_failures env_always_500 7 world_initial)\<lparr>clockReads := 2\<rparr>)"
proof -
  have closed: "openSince (circuitState world_initial) = None" by simp
  have enough: "CIRCUIT_MAX_FAILURES \<le> 7" by (simp add: CIRCUIT_MAX_FAILURES_def)
  note inst = failures_open_gate_once [OF closed enough, of env_always_500]
  let ?w = "record_failures env_always_500 7 world_initial"
  from inst have o: "openSince (circuitState ?w) = Some 0" and r: "clockReads ?w = 1"
    by simp_all
  have "real_of_int (date_now env_always_500 (clockReads ?w)
          - date_now env_always_500 (clockReads world_initial)) / 1000 < CIRCUIT_RESET_TIME"
    by (simp add: r CIRCUIT_RESET_TIME_def)
  with inst have "circuitBreaker env_always_500 ?w = (False, ?w\<lparr>clockReads := Suc (clockReads ?w)\<rparr>)"
    by blast
  with o r show ?thesis by simp
qed

subsection \<open>performLogin as a whole\<close>

lemma createLoginPayload_world:
  "snd (createLoginPayload e user w) =
     w\<lparr>clockReads := Suc (Suc (clockReads w)),
       dataProcessingTime := dataProcessingTime w
          @ [date_now e (Suc (clockReads w)) - date_now e (clockReads w)],
       bytesSent := bytesSent w + length (payload_text e user)\<rparr>"
  by (simp add: createLoginPayload_def Date_now_def Let_def)

lemma createLoginPayload_simps [simp]:
  "posts (snd (createLoginPayload e user w)) = posts w"
  "slept (snd (createLoginPayload e user w)) = slept w"
  "circuitState (snd (createLoginPayload e user w)) = circuitState w"
  "loginFailRate (snd (createLoginPayload e user w)) = loginFailRate w"
  by (simp_all add: createLoginPayload_world)

lemma circuitBreaker_simps [simp]:
  "posts (snd (circuitBreaker e w)) = posts w"
  "slept (snd (circuitBreaker e w)) = slept w"
  "loginFailRate (snd (circuitBreaker e w)) = loginFailRate w"
  by (simp_all add: circuitBreaker_def Date_now_def Let_def split: option.splits)

lemma circuitBreaker_allows:
  "fst (circuitBreaker e w) \<Longrightarrow> openSince (circuitState (snd (circuitBreaker e w))) = None"
  by (simp add: circuitBreaker_def Date_now_def Let_def split: option.splits if_splits)

lemma recordCircuitBreakerResult_simps [simp]:
  "posts (recordCircuitBreakerResult e b w) = posts w"
  "slept (recordCircuitBreakerResult e b w) = slept w"
  "loginFailRate (recordCircuitBreakerResult e b w) = loginFailRate w"
  by (simp_all add: recordCircuitBreakerResult_def Date_now_def Let_def)

lemma recordCircuitBreakerResult_failures:
  "failures (circuitState (recordCircuitBreakerResult e False w)) = Suc (failures (circuitState w))"
  by (simp add: recordCircuitBreakerResult_def Date_now_def Let_def)

text \<open>performLogin when the gate lets the call through, in terms of the loop.\<close>

lemma performLogin_allowed:
  assumes "fst (circuitBreaker e w)"
  shows "performLogin cfg e user w =
     (let l = performLogin_loop cfg e 0 (snd (createLoginPayload e user (snd (circuitBreaker e w))))
      in if MAX_RETRIES cfg < int (fst (snd l))
         then (JNull, recordCircuitBreakerResult e False (snd (snd l)))
         else (fst l, snd (snd l)))"
  using assms
  by (cases "circuitBreaker e w") (simp add: performLogin_def Let_def split: prod.splits)

lemma performLogin_denied:
  assumes "\<not> fst (circuitBreaker e w)"
  shows "performLogin cfg e user w = (JNull, snd (circuitBreaker e w))"
  using assms
  by (cases "circuitBreaker e w") (simp add: performLogin_def)

lemma performLogin_all_fail:
  assumes allow: "fst (circuitBreaker e w)"
    and fail: "\<forall>i<nat (MAX_RETRIES cfg + 1). \<not> checkResult (http_post e (posts w + i))"
  shows "fst (performLogin cfg e user w) = JNull"
    and "posts (snd (performLogin cfg e user w)) = posts w + nat (MAX_RETRIES cfg + 1)"
    and "loginFailRate (snd (performLogin cfg e user w)) = loginFailRate w + nat (MAX_RETRIES cfg + 1)"
    and "failures (circuitState (snd (performLogin cfg e user w)))
           = Suc (failures (circuitState (snd (circuitBreaker e w))))"
proof -
  let ?w2 = "snd (createLoginPayload e user (snd (circuitBreaker e w)))"
  let ?l = "performLogin_loop cfg e 0 ?w2"
  have "\<forall>i. posts ?w2 \<le> i \<and> i < posts ?w2 + nat (MAX_RETRIES cfg + 1 - int 0)
          \<longrightarrow> \<not> checkResult (http_post e i)"
  proof (intro allI impI)
    fix i
    assume "posts ?w2 \<le> i \<and> i < posts ?w2 + nat (MAX_RETRIES cfg + 1 - int 0)"
    then have "i - posts w < nat (MAX_RETRIES cfg + 1)" and "i = posts w + (i - posts w)"
      by auto
    with fail show "\<not> checkResult (http_post e i)" by metis
  qed
  from loop_all_fail [OF this]
  have l: "fst ?l = JNull" "MAX_RETRIES cfg < int (fst (snd ?l))"
    "posts (snd (snd ?l)) = posts w + nat (MAX_RETRIES cfg + 1)"
    "loginFailRate (snd (snd ?l)) = loginFailRate w + nat (MAX_RETRIES cfg + 1)"
    "circuitState (snd (snd ?l)) = circuitState (snd (circuitBreaker e w))"
    by simp_all
  have p: "performLogin cfg e user w = (JNull, recordCircuitBreakerResult e False (snd (snd ?l)))"
    unfolding performLogin_allowed [OF allow] using l(2) by (simp add: Let_def)
  show "fst (performLogin cfg e user w) = JNull"
    by (simp add: p)
  show "posts (snd (performLogin cfg e user w)) = posts w + nat (MAX_RETRIES cfg + 1)"
    by (simp add: p l(3))
  show "loginFailRate (snd (performLogin cfg e user w)) = loginFailRate w + nat (MAX_RETRIES cfg + 1)"
    by (simp add: p l(4))
  show "failures (circuitState (snd (performLogin cfg e user w)))
           = Suc (failures (circuitState (snd (circuitBreaker e w))))"
    by (simp add: p recordCircuitBreakerResult_failures l(5))
qed

lemma performLogin_posts_upper:
  "posts (snd (performLogin cfg e user w)) \<le> posts w + nat (MAX_RETRIES cfg + 1)"
proof (cases "fst (circuitBreaker e w)")
  case True
  let ?w2 = "snd (createLoginPayload e user (snd (circuitBreaker e w)))"
  have "posts (snd (snd (performLogin_loop cfg e 0 ?w2))) \<le> posts ?w2 + nat (MAX_RETRIES cfg + 1 - int 0)"
    by (rule loop_posts_upper)
  then show ?thesis
    unfolding performLogin_allowed [OF True] by (simp add: Let_def)
next
  case False
  then show ?thesis by (simp add: performLogin_denied)
qed

lemma performLogin_slept:
  "slept (snd (performLogin cfg e user w)) =
     slept w @ map (\<lambda>k. RETRY_INTERVAL cfg * 2 ^ k)
       [0 ..< posts (snd (performLogin cfg e user w)) - posts w - 1]"
proof (cases "fst (circuitBreaker e w)")
  case True
  let ?w2 = "snd (createLoginPayload e user (snd (circuitBreaker e w)))"
  from loop_slept [of cfg e 0 ?w2] show ?thesis
    unfolding performLogin_allowed [OF True] by (simp add: Let_def)
next
  case False
  then show ?thesis by (simp add: performLogin_denied)
qed

lemma CONFIG_default_simps [simp]:
  "MAX_RETRIES CONFIG_default = 3"
  "RETRY_INTERVAL CONFIG_default = 2"
  by (simp_all add: CONFIG_default_def)

text \<open>
  Claim C1, as amended.  A failed attempt leaves the gate as it is: the loop goes on
  with \<open>retries + 1\<close> in a world whose \<open>circuitState\<close> is unchanged.  When the gate
  lets the call through and each of the \<open>MAX_RETRIES + 1\<close> responses fails the rubric,
  performLogin makes \<open>MAX_RETRIES + 1\<close> requests, counts as many failed attempts in
  \<open>loginFailRate\<close>, records one failure on the gate after the loop (the counter is
  one above its value after the gate check) and returns \<open>null\<close>.
\<close>

theorem performLogin_exhausted_records_one_failure:
  "(int retries \<le> MAX_RETRIES cfg \<and> \<not> checkResult (http_post e (posts w))
      \<longrightarrow> performLogin_loop cfg e retries w
            = performLogin_loop cfg e (Suc retries) (fail_world cfg retries (request_world e w))
          \<and> circuitState (fail_world cfg retries (request_world e w)) = circuitState w)
   \<and> (fst (circuitBreaker e w)
        \<and> (\<forall>i<nat (MAX_RETRIES cfg + 1). \<not> checkResult (http_post e (posts w + i)))
      \<longrightarrow> fst (performLogin cfg e user w) = JNull
          \<and> posts (snd (performLogin cfg e user w)) = posts w + nat (MAX_RETRIES cfg + 1)
          \<and> loginFailRate (snd (performLogin cfg e user w))
              = loginFailRate w + nat (MAX_RETRIES cfg + 1)
          \<and> failures (circuitState (snd (performLogin cfg e user w)))
              = Suc (failures (circuitState (snd (circuitBreaker e w)))))"
proof (intro conjI impI)
  assume "int retries \<le> MAX_RETRIES cfg \<and> \<not> checkResult (http_post e (posts w))"
  then show "performLogin_loop cfg e retries w
            = performLogin_loop cfg e (Suc retries) (fail_world cfg retries (request_world e w))"
    by (simp add: loop_fail)
  show "circuitState (fail_world cfg retries (request_world e w)) = circuitState w"
    by simp
next
  assume a: "fst (circuitBreaker e w)
        \<and> (\<forall>i<nat (MAX_RETRIES cfg + 1). \<not> checkResult (http_post e (posts w + i)))"
  then have allow: "fst (circuitBreaker e w)"
    and fail: "\<forall>i<nat (MAX_RETRIES cfg + 1). \<not> checkResult (http_post e (posts w + i))"
    by simp_all
  from allow fail show "fst (performLogin cfg e user w) = JNull"
    by (rule performLogin_all_fail(1))
  from allow fail show "posts (snd (performLogin cfg e user w)) = posts w + nat (MAX_RETRIES cfg + 1)"
    by (rule performLogin_all_fail(2))
  from allow fail show "loginFailRate (snd (performLogin cfg e user w))
              = loginFailRate w + nat (MAX_RETRIES cfg + 1)"
    by (rule performLogin_all_fail(3))
  from allow fail show "failures (circuitState (snd (performLogin cfg e user w)))
              = Suc (failures (circuitState (snd (circuitBreaker e w))))"
    by (rule performLogin_all_fail(4))
qed

lemma initial_gate_allows: "circuitBreaker e world_initial = (True, world_initial)"
  by (simp add: circuitBreaker_def)

lemma env_always_500_fails: "\<not> checkResult (http_post env_always_500 n)"
  by (simp add: status_500_fails)

theorem performLogin_exhausted_records_one_failure_witness:
  "fst (circuitBreaker env_always_500 world_initial)
   \<and> \<not> checkResult (http_post env_always_500 0)
   \<and> fst (performLogin CONFIG_default env_always_500 user_example world_initial) = JNull
   \<and> posts (snd (performLogin CONFIG_default env_always_500 user_example world_initial)) = 4
   \<and> failures (circuitState (snd (performLogin CONFIG_default env_always_500 user_example
        world_initial))) = 1"
  using performLogin_exhausted_records_one_failure
          [of 0 CONFIG_default env_always_500 world_initial user_example]
  by (simp add: initial_gate_allows env_always_500_fails)

text \<open>
  Claim C1 as stated fails: with the default configuration and an endpoint that always
  answers 500, four attempts fail and are counted in \<open>loginFailRate\<close>, and the gate's
  counter stands at 1 afterwards, not at 4 or 5.
\<close>

theorem failed_attempts_recorded_on_gate_counterexample:
  "loginFailRate (snd (performLogin CONFIG_default env_always_500 user_example world_initial)) = 4
   \<and> failures (circuitState (snd (performLogin CONFIG_default env_always_500 user_example
        world_initial))) = 1
   \<and> \<not> loginFailRate (snd (performLogin CONFIG_default env_always_500 user_example world_initial))
        \<le> failures (circuitState (snd (performLogin CONFIG_default env_always_500 user_example
             world_initial)))"
proof -
  have allow: "fst (circuitBreaker env_always_500 world_initial)"
    by (simp add: initial_gate_allows)
  have fail: "\<forall>i<nat (MAX_RETRIES CONFIG_default + 1).
      \<not> checkResult (http_post env_always_500 (posts world_initial + i))"
    by (simp add: env_always_500_fails)
  from performLogin_all_fail(3) [OF allow fail, of user_example]
    performLogin_all_fail(4) [OF allow fail, of user_example]
  show ?thesis by (simp add: initial_gate_allows)
qed

text \<open>
  One call of performLogin that finds the gate closed and only failing responses: the
  requests, the readings of the clock and the gate afterwards.
\<close>

lemma performLogin_all_fail_closed:
  assumes closed: "openSince (circuitState w) = None"
    and fail: "\<forall>i<nat (MAX_RETRIES cfg + 1). \<not> checkResult (http_post e (posts w + i))"
  shows "posts (snd (performLogin cfg e user w)) = posts w + nat (MAX_RETRIES cfg + 1)"
    and "circuitState (snd (performLogin cfg e user w))
           = (if CIRCUIT_MAX_FAILURES \<le> Suc (failures (circuitState w))
              then \<lparr>failures = Suc (failures (circuitState w)),
                    openSince = Some (date_now e (clockReads w + 2 + 2 * nat (MAX_RETRIES cfg + 1)))\<rparr>
              else \<lparr>failures = Suc (failures (circuitState w)), openSince = None\<rparr>)"
    and "clockReads (snd (performLogin cfg e user w))
           = clockReads w + 2 + 2 * nat (MAX_RETRIES cfg + 1)
               + (if CIRCUIT_MAX_FAILURES \<le> Suc (failures (circuitState w)) then 1 else 0)"
proof -
  from closed have gate: "circuitBreaker e w = (True, w)"
    by (simp add: circuitBreaker_def)
  then have allow: "fst (circuitBreaker e w)" by simp
  let ?w2 = "snd (createLoginPayload e user w)"
  let ?l = "performLogin_loop cfg e 0 ?w2"
  let ?w3 = "snd (snd ?l)"
  have "\<forall>i. posts ?w2 \<le> i \<and> i < posts ?w2 + nat (MAX_RETRIES cfg + 1 - int 0)
          \<longrightarrow> \<not> checkResult (http_post e i)"
  proof (intro allI impI)
    fix i
    assume "posts ?w2 \<le> i \<and> i < posts ?w2 + nat (MAX_RETRIES cfg + 1 - int 0)"
    then have "i - posts w < nat (MAX_RETRIES cfg + 1)" and "i = posts w + (i - posts w)"
      by auto
    with fail show "\<not> checkResult (http_post e i)" by metis
  qed
  from loop_all_fail [OF this]
  have l: "MAX_RETRIES cfg < int (fst (snd ?l))"
    "posts ?w3 = posts w + nat (MAX_RETRIES cfg + 1)"
    "circuitState ?w3 = circuitState w"
    by simp_all
  have reads: "clockReads ?w3 = clockReads w + 2 + 2 * nat (MAX_RETRIES cfg + 1)"
    using loop_clockReads [of cfg e 0 ?w2] l(2) by (simp add: createLoginPayload_world)
  have p: "snd (performLogin cfg e user w) = recordCircuitBreakerResult e False ?w3"
    unfolding performLogin_allowed [OF allow] using l(1) by (simp add: Let_def gate)
  have closed3: "openSince (circuitState ?w3) = None"
    by (simp add: l(3) closed)
  show "posts (snd (performLogin cfg e user w)) = posts w + nat (MAX_RETRIES cfg + 1)"
    by (simp add: p l(2))
  show "circuitState (snd (performLogin cfg e user w))
           = (if CIRCUIT_MAX_FAILURES \<le> Suc (failures (circuitState w))
              then \<lparr>failures = Suc (failures (circuitState w)),
                    openSince = Some (date_now e (clockReads w + 2 + 2 * nat (MAX_RETRIES cfg + 1)))\<rparr>
              else \<lparr>failures = Suc (failures (circuitState w)), openSince = None\<rparr>)"
    unfolding p record_failure_closed [OF closed3] by (simp add: l(3) reads)
  show "clockReads (snd (performLogin cfg e user w))
           = clockReads w + 2 + 2 * nat (MAX_RETRIES cfg + 1)
               + (if CIRCUIT_MAX_FAILURES \<le> Suc (failures (circuitState w)) then 1 else 0)"
    unfolding p record_failure_closed [OF closed3] by (simp add: l(3) reads)
qed

text \<open>The default configuration against the endpoint that always answers 500.\<close>

lemma always_500_call:
  assumes "openSince (circuitState w) = None"
  shows "posts (snd (performLogin CONFIG_default env_always_500 user w)) = posts w + 4"
    and "failures (circuitState (snd (performLogin CONFIG_default env_always_500 user w)))
           = Suc (failures (circuitState w))"
    and "openSince (circuitState (snd (performLogin CONFIG_default env_always_500 user w)))
           = (if 4 \<le> failures (circuitState w) then Some (1000 * int (clockReads w + 10)) else None)"
    and "clockReads (snd (performLogin CONFIG_default env_always_500 user w))
           = clockReads w + 10 + (if 4 \<le> failures (circuitState w) then 1 else 0)"
proof -
  have fail: "\<forall>i<nat (MAX_RETRIES CONFIG_default + 1).
      \<not> checkResult (http_post env_always_500 (posts w + i))"
    by (simp add: env_always_500_fails)
  note call = performLogin_all_fail_closed [OF assms fail, of user]
  from call(1) show "posts (snd (performLogin CONFIG_default env_always_500 user w)) = posts w + 4"
    by simp
  from call(2) show "failures (circuitState (snd (performLogin CONFIG_default env_always_500 user w)))
           = Suc (failures (circuitState w))"
    by simp
  from call(2) show "openSince (circuitState (snd (performLogin CONFIG_default env_always_500 user w)))
           = (if 4 \<le> failures (circuitState w) then Some (1000 * int (clockReads w + 10)) else None)"
    by (simp add: CIRCUIT_MAX_FAILURES_def)
  from call(3) show "clockReads (snd (performLogin CONFIG_default env_always_500 user w))
           = clockReads w + 10 + (if 4 \<le> failures (circuitState w) then 1 else 0)"
    by (simp add: CIRCUIT_MAX_FAILURES_def)
qed

lemma five_exhausted_calls:
  "posts (login_calls CONFIG_default env_always_500 user 5 world_initial) = 20"
  "openSince (circuitState (login_calls CONFIG_default env_always_500 user 5 world_initial))
     = Some 50000"
  "clockReads (login_calls CONFIG_default env_always_500 user 5 world_initial) = 51"
proof -
  let ?call = "\<lambda>v. snd (performLogin CONFIG_default env_always_500 user v)"
  let ?w1 = "?call world_initial"
  let ?w2 = "?call ?w1"
  let ?w3 = "?call ?w2"
  let ?w4 = "?call ?w3"
  let ?w5 = "?call ?w4"
  have w5: "login_calls CONFIG_default env_always_500 user 5 world_initial = ?w5"
    by (simp add: login_calls_def eval_nat_numeral)
  have c0: "openSince (circuitState world_initial) = None" by simp
  note s1 = always_500_call [OF c0, of user]
  from s1 have c1: "openSince (circuitState ?w1) = None" by simp
  note s2 = always_500_call [OF c1, of user]
  from s1 s2 have c2: "openSince (circuitState ?w2) = None" by simp
  note s3 = always_500_call [OF c2, of user]
  from s1 s2 s3 have c3: "openSince (circuitState ?w3) = None" by simp
  note s4 = always_500_call [OF c3, of user]
  from s1 s2 s3 s4 have c4: "openSince (circuitState ?w4) = None" by simp
  note s5 = always_500_call [OF c4, of user]
  from s1 s2 s3 s4 have f4: "failures (circuitState ?w4) = 4" "clockReads ?w4 = 40" "posts ?w4 = 16"
    by simp_all
  from s5 f4 show "posts (login_calls CONFIG_default env_always_500 user 5 world_initial) = 20"
    unfolding w5 by simp
  from s5 f4 show "openSince (circuitState (login_calls CONFIG_default env_always_500 user 5 world_initial))
     = Some 50000"
    unfolding w5 by simp
  from s5 f4 show "clockReads (login_calls CONFIG_default env_always_500 user 5 world_initial) = 51"
    unfolding w5 by simp
qed

text \<open>
  Claim C6, as amended.  With \<open>MAX_RETRIES = 3\<close> and an endpoint whose every response
  has status 500, performLogin returns \<open>null\<close>; it makes exactly 4 requests when the
  gate lets the call through, and none when the gate denies the call.
\<close>

theorem always_500_four_attempts:
  assumes "MAX_RETRIES cfg = 3" and "\<forall>i. status (http_post e i) = 500"
  shows "fst (performLogin cfg e user w) = JNull
    \<and> posts (snd (performLogin cfg e user w))
        = posts w + (if fst (circuitBreaker e w) then 4 else 0)"
proof (cases "fst (circuitBreaker e w)")
  case True
  from assms(2) have "\<forall>i<nat (MAX_RETRIES cfg + 1). \<not> checkResult (http_post e (posts w + i))"
    by (simp add: status_500_fails)
  from performLogin_all_fail(1,2) [OF True this, of user] assms(1) True show ?thesis
    by simp
next
  case False
  then show ?thesis by (simp add: performLogin_denied)
qed

theorem always_500_four_attempts_witness:
  "MAX_RETRIES CONFIG_default = 3 \<and> status (http_post env_always_500 0) = 500
   \<and> fst (circuitBreaker env_always_500 world_initial)
   \<and> posts (snd (performLogin CONFIG_default env_always_500 user_example world_initial)) = 4
   \<and> fst (performLogin CONFIG_default env_always_500 user_example world_initial) = JNull"
proof -
  have a: "MAX_RETRIES CONFIG_default = 3" by simp
  have b: "\<forall>i. status (http_post env_always_500 i) = 500" by simp
  have c: "fst (circuitBreaker env_always_500 world_initial)" by (simp add: initial_gate_allows)
  from always_500_four_attempts [OF a b, of user_example world_initial] a b c show ?thesis
    by simp
qed

text \<open>
  Claim C6 as stated fails: with the default configuration (\<open>MAX_RETRIES = 3\<close>) and
  the endpoint that always answers 500, five calls of performLogin from the initial
  state make 20 requests and open the gate; the sixth call, one second later, makes no
  request at all.
\<close>

theorem always_500_open_gate_counterexample:
  "MAX_RETRIES CONFIG_default = 3
   \<and> posts (login_calls CONFIG_default env_always_500 user_example 5 world_initial) = 20
   \<and> posts (snd (performLogin CONFIG_default env_always_500 user_example
        (login_calls CONFIG_default env_always_500 user_example 5 world_initial))) = 20
   \<and> \<not> posts (snd (performLogin CONFIG_default env_always_500 user_example
          (login_calls CONFIG_default env_always_500 user_example 5 world_initial)))
        = posts (login_calls CONFIG_default env_always_500 user_example 5 world_initial) + 4"
proof -
  let ?w = "login_calls CONFIG_default env_always_500 user_example 5 world_initial"
  note w = five_exhausted_calls [of user_example]
  have denied: "\<not> fst (circuitBreaker env_always_500 ?w)"
    by (simp add: circuitBreaker_def Date_now_def w CIRCUIT_RESET_TIME_def)
  then have "posts (snd (performLogin CONFIG_default env_always_500 user_example ?w)) = posts ?w"
    by (simp add: performLogin_denied)
  with w(1) show ?thesis by simp
qed

text \<open>
  Claim C7.  When circuitBreaker answers false, performLogin returns \<open>null\<close> and the
  world it leaves differs from the one it found only in the one clock reading of the
  gate check: no request, no sleep, no metric, no change of the gate.
\<close>

theorem gate_denied_skips:
  assumes "\<not> fst (circuitBreaker e w)"
  shows "performLogin cfg e user w = (JNull, w\<lparr>clockReads := Suc (clockReads w)\<rparr>)
    \<and> posts (snd (performLogin cfg e user w)) = posts w
    \<and> slept (snd (performLogin cfg e user w)) = slept w
    \<and> loginFailRate (snd (performLogin cfg e user w)) = loginFailRate w
    \<and> circuitState (snd (performLogin cfg e user w)) = circuitState w"
proof -
  from assms have "snd (circuitBreaker e w) = w\<lparr>clockReads := Suc (clockReads w)\<rparr>"
    by (simp add: circuitBreaker_def Date_now_def Let_def split: option.splits if_splits)
  with performLogin_denied [OF assms, of cfg user]
  have "performLogin cfg e user w = (JNull, w\<lparr>clockReads := Suc (clockReads w)\<rparr>)"
    by simp
  then show ?thesis by simp
qed

theorem gate_denied_skips_witness:
  "\<not> fst (circuitBreaker env_always_500 (record_failures env_always_500 5 world_initial))
   \<and> performLogin CONFIG_default env_always_500 user_example
        (record_failures env_always_500 5 world_initial)
      = (JNull, (record_failures env_always_500 5 world_initial)\<lparr>clockReads := 2\<rparr>)"
proof -
  let ?w = "record_failures env_always_500 5 world_initial"
  have w: "openSince (circuitState ?w) = Some 0" "clockReads ?w = 1"
    using record_failures_closed [of world_initial env_always_500 5]
    by (simp_all add: CIRCUIT_MAX_FAILURES_def)
  have denied: "\<not> fst (circuitBreaker env_always_500 ?w)"
    by (simp add: circuitBreaker_def Date_now_def w CIRCUIT_RESET_TIME_def)
  from gate_denied_skips [OF denied, of CONFIG_default user_example] denied w show ?thesis
    by simp
qed

text \<open>
  Claim C5.  The sleeps of one call of performLogin, in order, are
  \<open>RETRY_INTERVAL * 2^0, RETRY_INTERVAL * 2^1, ...\<close>, one fewer than the requests it
  makes: the sleep before attempt \<open>k\<close> (\<open>k \<ge> 1\<close>, counting from 0) lasts
  \<open>RETRY_INTERVAL * 2^(k-1)\<close> seconds, no sleep follows the last attempt, and there
  are at most \<open>MAX_RETRIES\<close> sleeps.
\<close>

theorem backoff_delays:
  "slept (snd (performLogin cfg e user w)) =
     slept w @ map (\<lambda>k. RETRY_INTERVAL cfg * 2 ^ k)
       [0 ..< posts (snd (performLogin cfg e user w)) - posts w - 1]
   \<and> (\<forall>k. 1 \<le> k \<and> k < posts (snd (performLogin cfg e user w)) - posts w
        \<longrightarrow> slept (snd (performLogin cfg e user w)) ! (length (slept w) + (k - 1))
              = RETRY_INTERVAL cfg * 2 ^ (k - 1))
   \<and> length (slept (snd (performLogin cfg e user w)))
        = length (slept w) + (posts (snd (performLogin cfg e user w)) - posts w - 1)
   \<and> length (slept (snd (performLogin cfg e user w))) \<le> length (slept w) + nat (MAX_RETRIES cfg)"
proof -
  let ?w' = "snd (performLogin cfg e user w)"
  let ?n = "posts ?w' - posts w"
  have eq: "slept ?w' = slept w @ map (\<lambda>k. RETRY_INTERVAL cfg * 2 ^ k) [0 ..< ?n - 1]"
    by (rule performLogin_slept)
  have len: "length (slept ?w') = length (slept w) + (?n - 1)"
    by (subst eq) simp
  have nth: "slept ?w' ! (length (slept w) + (k - 1)) = RETRY_INTERVAL cfg * 2 ^ (k - 1)"
    if "1 \<le> k \<and> k < ?n" for k
  proof -
    from that have "k - 1 < ?n - 1" by linarith
    then show ?thesis by (subst eq) (simp add: nth_append)
  qed
  have "?n \<le> nat (MAX_RETRIES cfg + 1)"
    using performLogin_posts_upper [of cfg e user w] by linarith
  then have "?n - 1 \<le> nat (MAX_RETRIES cfg)" by linarith
  with len have bound: "length (slept ?w') \<le> length (slept w) + nat (MAX_RETRIES cfg)"
    by linarith
  from eq nth len bound show ?thesis by blast
qed

theorem backoff_delays_witness:
  "slept (snd (performLogin CONFIG_default env_always_500 user_example world_initial)) = [2, 4, 8]"
proof -
  have "posts (snd (performLogin CONFIG_default env_always_500 user_example world_initial)) = 4"
    using performLogin_all_fail(2) [of env_always_500 world_initial CONFIG_default user_example]
    by (simp add: initial_gate_allows env_always_500_fails)
  moreover have "[0..<3] = [0, 1, 2]"
    by (simp add: upt_rec)
  ultimately show ?thesis
    using backoff_delays [of CONFIG_default env_always_500 user_example world_initial]
    by simp
qed

text \<open>
  Claim C10.  performLogin is a total function of its inputs (the loop is defined by
  well-founded recursion on \<open>MAX_RETRIES + 1 - retries\<close>) and makes at most
  \<open>MAX_RETRIES + 1\<close> requests.  An iteration at the loop head with
  \<open>retries \<le> MAX_RETRIES\<close> either ends the loop with the parsed body, \<open>retries\<close>
  unchanged, or goes on with \<open>retries + 1\<close>.  The branch in which the rubric passes
  and the second \<open>response.json()\<close> throws is never taken: a response that passes the
  rubric has a body that parses.
\<close>

theorem performLogin_bounded_attempts:
  "posts (snd (performLogin cfg e user w)) \<le> posts w + nat (MAX_RETRIES cfg + 1)
   \<and> (0 \<le> MAX_RETRIES cfg
        \<longrightarrow> int (posts (snd (performLogin cfg e user w)) - posts w) \<le> MAX_RETRIES cfg + 1)
   \<and> (\<forall>r. checkResult r \<longrightarrow> (\<exists>body. json r = Inr body))
   \<and> (\<forall>retries v. int retries \<le> MAX_RETRIES cfg \<longrightarrow>
         (checkResult (http_post e (posts v))
            \<and> (\<exists>body. json (http_post e (posts v)) = Inr body
                  \<and> performLogin_loop cfg e retries v
                      = (body, retries, pass_world (request_world e v))))
         \<or> (\<not> checkResult (http_post e (posts v))
            \<and> performLogin_loop cfg e retries v
                = performLogin_loop cfg e (Suc retries)
                    (fail_world cfg retries (request_world e v))))"
proof (intro conjI allI impI)
  show upper: "posts (snd (performLogin cfg e user w)) \<le> posts w + nat (MAX_RETRIES cfg + 1)"
    by (rule performLogin_posts_upper)
  show "int (posts (snd (performLogin cfg e user w)) - posts w) \<le> MAX_RETRIES cfg + 1"
    if "0 \<le> MAX_RETRIES cfg"
    using upper that by linarith
next
  fix r
  assume "checkResult r"
  then show "\<exists>body. json r = Inr body" by (rule checkResult_parsed)
next
  fix retries v
  assume le: "int retries \<le> MAX_RETRIES cfg"
  show "(checkResult (http_post e (posts v))
            \<and> (\<exists>body. json (http_post e (posts v)) = Inr body
                  \<and> performLogin_loop cfg e retries v
                      = (body, retries, pass_world (request_world e v))))
         \<or> (\<not> checkResult (http_post e (posts v))
            \<and> performLogin_loop cfg e retries v
                = performLogin_loop cfg e (Suc retries)
                    (fail_world cfg retries (request_world e v)))"
  proof (cases "checkResult (http_post e (posts v))")
    case True
    then obtain body where "json (http_post e (posts v)) = Inr body"
      using checkResult_parsed by blast
    with loop_pass [OF le True] True show ?thesis by simp
  next
    case False
    with loop_fail [OF le False] show ?thesis by simp
  qed
qed

theorem performLogin_bounded_attempts_witness:
  "0 \<le> MAX_RETRIES CONFIG_default
   \<and> int (posts (snd (performLogin CONFIG_default env_always_500 user_example world_initial))
        - posts world_initial) \<le> 4
   \<and> checkResult response_ok
   \<and> (\<exists>body. json response_ok = Inr body)"
  using performLogin_bounded_attempts [of CONFIG_default env_always_500 user_example world_initial]
    response_ok_passes
  by simp

subsection \<open>The user pool\<close>

lemma digit_char_code: "k < 10 \<Longrightarrow> of_char (digit_char k) = 48 + k"
  by (simp add: digit_char_def)

lemma digit_char_inj:
  assumes "j < 10" and "k < 10" and "digit_char j = digit_char k"
  shows "j = k"
proof -
  from assms(3) have "(of_char (digit_char j) :: nat) = of_char (digit_char k)" by simp
  with assms(1,2) show ?thesis by (simp add: digit_char_code)
qed

lemma digit_char_not_underscore: "k < 10 \<Longrightarrow> digit_char k \<noteq> CHR ''_''"
proof
  assume "k < 10" and "digit_char k = CHR ''_''"
  then have "(of_char (digit_char k) :: nat) = of_char CHR ''_''" by simp
  with \<open>k < 10\<close> show False by (simp add: digit_char_code)
qed

lemma number_toString_no_underscore: "CHR ''_'' \<notin> set (number_toString n)"
proof (induction n rule: number_toString.induct)
  case (1 n)
  show ?case
  proof (cases "n < 10")
    case True
    then show ?thesis
      using digit_char_not_underscore [of n] by (subst number_toString.simps) auto
  next
    case False
    have "n mod 10 < 10" by simp
    with False "1" show ?thesis
      using digit_char_not_underscore [of "n mod 10"] by (subst number_toString.simps) auto
  qed
qed

lemma number_toString_nonempty: "number_toString n \<noteq> []"
  by (subst number_toString.simps) simp

lemma number_toString_inj: "number_toString n = number_toString m \<Longrightarrow> n = m"
proof (induction n arbitrary: m rule: number_toString.induct)
  case (1 n)
  show ?case
  proof (cases "n < 10")
    case small_n: True
    show ?thesis
    proof (cases "m < 10")
      case True
      with small_n "1.prems" have "digit_char n = digit_char m"
        by (simp add: number_toString.simps [of n] number_toString.simps [of m])
      with small_n True show ?thesis by (rule digit_char_inj)
    next
      case False
      with small_n "1.prems" have "number_toString (m div 10) = []"
        by (simp add: number_toString.simps [of n] number_toString.simps [of m]
              append_eq_Cons_conv)
      then show ?thesis by (simp add: number_toString_nonempty)
    qed
  next
    case big_n: False
    show ?thesis
    proof (cases "m < 10")
      case True
      with big_n "1.prems" have "number_toString (n div 10) = []"
        by (simp add: number_toString.simps [of n] number_toString.simps [of m]
              Cons_eq_append_conv)
      then show ?thesis by (simp add: number_toString_nonempty)
    next
      case False
      with big_n "1.prems" have front: "number_toString (n div 10) = number_toString (m div 10)"
        and last: "digit_char (n mod 10) = digit_char (m mod 10)"
        by (simp_all add: number_toString.simps [of n] number_toString.simps [of m])
      from "1.IH" [OF big_n front] have "n div 10 = m div 10" .
      moreover from last have "n mod 10 = m mod 10"
        by (intro digit_char_inj) simp_all
      ultimately show ?thesis by (metis div_mult_mod_eq)
    qed
  qed
qed

lemma separator_splits_equal:
  assumes "c \<notin> set xs" and "c \<notin> set ys" and "xs @ c # a = ys @ c # b"
  shows "xs = ys"
  using assms
proof (induction xs arbitrary: ys)
  case Nil
  then show ?case by (cases ys) auto
next
  case (Cons x xs)
  then show ?case by (cases ys) auto
qed

lemma pool_entry_email_inj:
  assumes "email (pool_entry rnd i d) = email (pool_entry rnd' j d')"
  shows "i = j"
proof -
  from assms have "number_toString i @ CHR ''_'' # (random_string rnd d 8 @ ''@example.com'')
      = number_toString j @ CHR ''_'' # (random_string rnd' d' 8 @ ''@example.com'')"
    by (simp add: pool_entry_def)
  with number_toString_no_underscore number_toString_no_underscore
  have "number_toString i = number_toString j"
    by (rule separator_splits_equal)
  then show ?thesis by (rule number_toString_inj)
qed

lemma generateUserPool_loop_step:
  "int i < poolSize \<Longrightarrow>
   generateUserPool_loop rnd poolSize i users draws
     = generateUserPool_loop rnd poolSize (Suc i) (users @ [pool_entry rnd i draws]) (draws + 3)"
  by (subst generateUserPool_loop.simps)
     (simp add: randomString_def uuidv4_def pool_entry_def numeral_3_eq_3)

lemma generateUserPool_loop_done:
  "\<not> int i < poolSize \<Longrightarrow> generateUserPool_loop rnd poolSize i users draws = (users, draws)"
  by (subst generateUserPool_loop.simps) simp

lemma generateUserPool_loop_result:
  "generateUserPool_loop rnd poolSize i users draws
     = (users @ map (\<lambda>j. pool_entry rnd j (draws + 3 * (j - i))) [i ..< nat poolSize],
        draws + 3 * (nat poolSize - i))"
proof (induction "nat poolSize - i" arbitrary: i users draws)
  case 0
  then have "\<not> int i < poolSize" by linarith
  with 0 show ?case by (simp add: generateUserPool_loop_done)
next
  case (Suc k)
  then have lt: "int i < poolSize" and k: "k = nat poolSize - Suc i" by linarith+
  from lt have i: "i < nat poolSize" by linarith
  have "map (\<lambda>j. pool_entry rnd j (draws + 3 + 3 * (j - Suc i))) [Suc i ..< nat poolSize]
      = map (\<lambda>j. pool_entry rnd j (draws + 3 * (j - i))) [Suc i ..< nat poolSize]"
  proof (rule map_cong [OF refl])
    fix j
    assume "j \<in> set [Suc i ..< nat poolSize]"
    then have "draws + 3 + 3 * (j - Suc i) = draws + 3 * (j - i)" by auto
    then show "pool_entry rnd j (draws + 3 + 3 * (j - Suc i)) = pool_entry rnd j (draws + 3 * (j - i))"
      by (rule arg_cong)
  qed
  moreover have "draws + 3 + 3 * (nat poolSize - Suc i) = draws + 3 * (nat poolSize - i)"
    using i by linarith
  ultimately show ?case
    unfolding generateUserPool_loop_step [OF lt] Suc.hyps(1) [OF k]
    by (simp add: upt_conv_Cons [OF i])
qed

lemma generateUserPool_result:
  "generateUserPool rnd poolSize draws
     = (map (\<lambda>j. pool_entry rnd j (draws + 3 * j)) [0 ..< nat poolSize],
        draws + 3 * nat poolSize)"
  by (simp add: generateUserPool_def generateUserPool_loop_result)

text \<open>
  Claim C9.  For \<open>poolSize > 0\<close> generateUserPool returns \<open>poolSize\<close> credentials; the
  one at index \<open>i\<close> has the email \<open>user<i>_<8 random characters>@example.com\<close>, the
  password \<open>Secure<12 random characters>!<i>\<close> and a uuid as \<open>userId\<close>, each from a
  draw of its own; and the emails are pairwise distinct, whatever the random strings
  are, since the index is part of the email.
\<close>

theorem generateUserPool_pool:
  assumes "0 < poolSize"
  shows "int (length (fst (generateUserPool rnd poolSize draws))) = poolSize
    \<and> (\<forall>i<length (fst (generateUserPool rnd poolSize draws)).
          fst (generateUserPool rnd poolSize draws) ! i =
            \<lparr>email = ''user'' @ number_toString i @ ''_'' @ random_string rnd (draws + 3 * i) 8
                       @ ''@example.com'',
             password = ''Secure'' @ random_string rnd (draws + 3 * i + 1) 12 @ ''!''
                       @ number_toString i,
             userId = random_uuid rnd (draws + 3 * i + 2)\<rparr>)
    \<and> distinct (map email (fst (generateUserPool rnd poolSize draws)))"
proof (intro conjI allI impI)
  let ?pool = "fst (generateUserPool rnd poolSize draws)"
  have pool: "?pool = map (\<lambda>j. pool_entry rnd j (draws + 3 * j)) [0 ..< nat poolSize]"
    by (simp add: generateUserPool_result)
  from assms show "int (length ?pool) = poolSize"
    by (simp add: pool)
  show "?pool ! i =
            \<lparr>email = ''user'' @ number_toString i @ ''_'' @ random_string rnd (draws + 3 * i) 8
                       @ ''@example.com'',
             password = ''Secure'' @ random_string rnd (draws + 3 * i + 1) 12 @ ''!''
                       @ number_toString i,
             userId = random_uuid rnd (draws + 3 * i + 2)\<rparr>"
    if "i < length ?pool" for i
    using that by (simp add: pool pool_entry_def)
  have "inj_on (\<lambda>j. email (pool_entry rnd j (draws + 3 * j))) (set [0 ..< nat poolSize])"
    by (rule inj_onI) (rule pool_entry_email_inj)
  then show "distinct (map email ?pool)"
    by (simp add: pool distinct_map comp_def)
qed

theorem generateUserPool_pool_witness:
  "(0::int) < 5
   \<and> length (fst (generateUserPool rand_constant 5 0)) = 5
   \<and> distinct (map email (fst (generateUserPool rand_constant 5 0)))"
proof -
  have pos: "(0::int) < 5" by simp
  from generateUserPool_pool [OF pos, of rand_constant 0] show ?thesis
    by simp
qed

end
